theory Spec2Isabelle
  imports Complex_Main "HOL-Library.Sublist"
begin

text \<open>
  A shallow embedding of the retrieval-and-generation core of the repository: the
  streaming relay of \<open>ragService\<close>, the \<open>VectorStore\<close> class and the semantic chunking
  module. All definitions come first, the proofs follow.
\<close>

section \<open>Streaming relay (ragService: handleStreamingRAGResponse)\<close>

text \<open>
  The handler writes server-sent-event frames to the response object \<open>res\<close>. A frame is
  modelled by its payload: the JSON objects with \<open>type\<close> \<open>sources\<close>, \<open>token\<close>, \<open>done\<close>,
  \<open>error\<close>, and the literal frame \<open>data: [DONE]\<close> (the terminal sentinel).

  The value of \<open>buildSourcesMetadata(topDocs)\<close> and the function \<open>formatResponseAsHTML\<close>
  are carried through the frames unchanged, so they are parameters of the model
  (\<open>sources\<close> and \<open>fmt\<close>).
\<close>

datatype 'm sse_frame =
    Sources 'm
  | Token string
  | Done string string
  | Error string
  | Sentinel

text \<open>
  The response object: the frames written so far, and whether \<open>res.end()\<close> was called.
  A \<open>write\<close> after \<open>end\<close> delivers nothing to the caller.
\<close>

record 'm response =
  written :: "'m sse_frame list"
  ended :: bool

definition res_write :: "'m response \<Rightarrow> 'm sse_frame \<Rightarrow> 'm response" where
  "res_write res f = (if ended res then res else res\<lparr>written := written res @ [f]\<rparr>)"

definition res_end :: "'m response \<Rightarrow> 'm response" where
  "res_end res = res\<lparr>ended := True\<rparr>"

text \<open>
  One non-blank line of a data chunk of the generation stream, after \<open>JSON.parse\<close>:
  either the parse throws (the handler ignores the line), or it gives an object whose
  \<open>response\<close> field is absent or a string and whose \<open>done\<close> field is a boolean.
\<close>

datatype ollama_line = Malformed | JsonLine "string option" bool

text \<open>What the stream \<open>response.data\<close> emits: a data chunk (its lines) or an error.\<close>

datatype stream_event = DataEv "ollama_line list" | ErrorEv string

text \<open>The closure of the handler: the response object and the accumulator \<open>fullResponse\<close>.\<close>

record 'm relay =
  res :: "'m response"
  fullResponse :: string

text \<open>\<open>if (json.response)\<close>: a string is truthy when it is not empty.\<close>

fun truthy :: "string option \<Rightarrow> bool" where
  "truthy None = False"
| "truthy (Some s) = (s \<noteq> [])"

definition onLine :: "(string \<Rightarrow> string) \<Rightarrow> 'm relay \<Rightarrow> ollama_line \<Rightarrow> 'm relay" where
  "onLine fmt st l =
     (case l of
        Malformed \<Rightarrow> st
      | JsonLine r d \<Rightarrow>
          (let st1 = (if truthy r
                      then st\<lparr>fullResponse := fullResponse st @ the r,
                              res := res_write (res st) (Token (the r))\<rparr>
                      else st)
           in if d
              then st1\<lparr>res := res_end (res_write
                       (res_write (res st1) (Done (fmt (fullResponse st1)) (fullResponse st1)))
                       Sentinel)\<rparr>
              else st1))"

definition onData :: "(string \<Rightarrow> string) \<Rightarrow> 'm relay \<Rightarrow> ollama_line list \<Rightarrow> 'm relay" where
  "onData fmt st ls = foldl (onLine fmt) st ls"

definition onError :: "'m relay \<Rightarrow> string \<Rightarrow> 'm relay" where
  "onError st msg = st\<lparr>res := res_end (res_write (res st) (Error msg))\<rparr>"

fun onEvent :: "(string \<Rightarrow> string) \<Rightarrow> 'm relay \<Rightarrow> stream_event \<Rightarrow> 'm relay" where
  "onEvent fmt st (DataEv ls) = onData fmt st ls"
| "onEvent fmt st (ErrorEv msg) = onError st msg"

text \<open>
  \<open>handleStreamingRAGResponse\<close>: the sources frame is written first; then
  \<open>generateLLMResponseStream\<close> either rejects (\<open>Inl\<close> of the message: the exception leaves
  the function, second component of the result) or gives the stream whose events the
  two listeners handle in order.
\<close>

definition handleStreamingRAGResponse ::
  "'m \<Rightarrow> (string \<Rightarrow> string) \<Rightarrow> string + stream_event list \<Rightarrow> 'm response
     \<Rightarrow> 'm response \<times> string option" where
  "handleStreamingRAGResponse sources fmt llm r0 =
     (let r1 = res_write r0 (Sources sources)
      in case llm of
           Inl err \<Rightarrow> (r1, Some err)
         | Inr evs \<Rightarrow> (res (foldl (onEvent fmt) \<lparr>res = r1, fullResponse = []\<rparr> evs), None))"

text \<open>
  The route \<open>/api/public/query-stream\<close> of server.js: the search and the handler run in
  a \<open>try\<close> block whose \<open>catch\<close> writes an error frame, the sentinel, and ends the
  response. \<open>search\<close> is the outcome of \<open>performRAGSearch\<close> (\<open>Inl\<close> when it throws).
\<close>

definition fresh_response :: "'m response" where
  "fresh_response = \<lparr>written = [], ended = False\<rparr>"

definition route_catch :: "'m response \<Rightarrow> string \<Rightarrow> 'm response" where
  "route_catch r msg = res_end (res_write (res_write r (Error msg)) Sentinel)"

definition publicQueryStream ::
  "string + 'm \<Rightarrow> (string \<Rightarrow> string) \<Rightarrow> string + stream_event list \<Rightarrow> 'm response" where
  "publicQueryStream search fmt llm =
     (case search of
        Inl err \<Rightarrow> route_catch fresh_response err
      | Inr sources \<Rightarrow>
          (case handleStreamingRAGResponse sources fmt llm fresh_response of
             (r, None) \<Rightarrow> r
           | (r, Some err) \<Rightarrow> route_catch r err))"

section \<open>Vector store (services/vectorStore.js)\<close>

subsection \<open>Numbers\<close>

text \<open>
  A JavaScript number is modelled as a real number or \<open>NaN\<close>. Arithmetic on reals is
  exact: rounding, overflow, underflow and the infinities of IEEE-754 doubles are outside
  this model. \<open>NaN\<close> is kept because the code produces it from \<open>undefined\<close> (reading an
  array past its end) and because comparisons with it are false.
  Division by zero gives \<open>NaN\<close> here (JavaScript gives an infinity for a non-zero
  numerator); \<open>cosineSimilarity\<close> returns before dividing when a magnitude is zero.
\<close>

datatype num = NaN | Fin real

fun num_add :: "num \<Rightarrow> num \<Rightarrow> num" where
  "num_add (Fin x) (Fin y) = Fin (x + y)"
| "num_add _ _ = NaN"


fun num_mul :: "num \<Rightarrow> num \<Rightarrow> num" where
  "num_mul (Fin x) (Fin y) = Fin (x * y)"
| "num_mul _ _ = NaN"

fun num_div :: "num \<Rightarrow> num \<Rightarrow> num" where
  "num_div (Fin x) (Fin y) = (if y = 0 then NaN else Fin (x / y))"
| "num_div _ _ = NaN"

fun num_sqrt :: "num \<Rightarrow> num" where
  "num_sqrt (Fin x) = (if x < 0 then NaN else Fin (sqrt x))"
| "num_sqrt NaN = NaN"



subsection \<open>cosineSimilarity\<close>

text \<open>
  \<open>b[i]\<close>: past the end of the array the read gives \<open>undefined\<close>, which arithmetic
  turns into \<open>NaN\<close>.
\<close>

definition elemAt :: "num list \<Rightarrow> nat \<Rightarrow> num" where
  "elemAt b i = (if i < length b then b ! i else NaN)"

text \<open>One iteration of the loop \<open>for (let i = 0; i < a.length; i++)\<close>.\<close>

definition cosineStep ::
  "num list \<Rightarrow> num list \<Rightarrow> num \<times> num \<times> num \<Rightarrow> nat \<Rightarrow> num \<times> num \<times> num" where
  "cosineStep a b acc i =
     (case acc of (dotProduct, magnitudeA, magnitudeB) \<Rightarrow>
        (num_add dotProduct (num_mul (elemAt a i) (elemAt b i)),
         num_add magnitudeA (num_mul (elemAt a i) (elemAt a i)),
         num_add magnitudeB (num_mul (elemAt b i) (elemAt b i))))"

definition cosineSimilarity :: "num list \<Rightarrow> num list \<Rightarrow> num" where
  "cosineSimilarity a b =
     (case foldl (cosineStep a b) (Fin 0, Fin 0, Fin 0) [0..<length a] of
        (dotProduct, magnitudeA, magnitudeB) \<Rightarrow>
          (let magnitudeA = num_sqrt magnitudeA;
               magnitudeB = num_sqrt magnitudeB
           in if magnitudeA = Fin 0 \<or> magnitudeB = Fin 0 then Fin 0
              else num_div dotProduct (num_mul magnitudeA magnitudeB)))"

subsection \<open>The table \<open>documents\<close>\<close>

text \<open>
  A chunk as \<open>insertChunksBatch\<close> receives it, a row of the table, and a search result.
  The location fields are optional (\<open>None\<close> for \<open>null\<close> or \<open>undefined\<close>).
\<close>

record chunk =
  chunk_id :: string
  chunk_filename :: string
  chunk_text :: string
  chunk_embedding :: "num list"
  chunk_page :: "nat option"
  chunk_charStart :: "nat option"
  chunk_charEnd :: "nat option"

record doc =
  doc_id :: string
  doc_filename :: string
  doc_text :: string
  doc_embedding :: "num list"
  doc_page :: "nat option"
  doc_char_start :: "nat option"
  doc_char_end :: "nat option"


text \<open>\<open>chunk.page || null\<close>: the number 0 is falsy and is stored as \<open>null\<close>.\<close>

definition orNull :: "nat option \<Rightarrow> nat option" where
  "orNull v = (if v = Some 0 then None else v)"

text \<open>
  The column \<open>embedding\<close> holds \<open>JSON.stringify(embedding)\<close> and the search reads it
  back with \<open>JSON.parse\<close>. The row of the model holds the parsed array. \<open>NaN\<close> is
  written as \<open>null\<close>, and \<open>null\<close> is the number 0 in the products of the cosine.
\<close>

definition jsonRoundTrip :: "num list \<Rightarrow> num list" where
  "jsonRoundTrip v = map (\<lambda>x. case x of NaN \<Rightarrow> Fin 0 | Fin r \<Rightarrow> Fin r) v"

definition rowOf :: "chunk \<Rightarrow> doc" where
  "rowOf c = \<lparr>doc_id = chunk_id c, doc_filename = chunk_filename c, doc_text = chunk_text c,
              doc_embedding = jsonRoundTrip (chunk_embedding c),
              doc_page = orNull (chunk_page c),
              doc_char_start = orNull (chunk_charStart c),
              doc_char_end = orNull (chunk_charEnd c)\<rparr>"

text \<open>
  The table is the list of its rows in rowid order, the order in which a scan returns
  them. \<open>INSERT OR REPLACE\<close> on the primary key \<open>id\<close> deletes the row with that id, if
  any, and adds the new row with a fresh, largest rowid.
\<close>

definition insertOrReplace :: "doc list \<Rightarrow> doc \<Rightarrow> doc list" where
  "insertOrReplace db r = filter (\<lambda>d. doc_id d \<noteq> doc_id r) db @ [r]"

text \<open>
  \<open>insertChunksBatch\<close>: one transaction running the statement for each chunk in order.
  No statement of the model fails, so the transaction commits.
\<close>

definition insertChunksBatch :: "doc list \<Rightarrow> chunk list \<Rightarrow> doc list" where
  "insertChunksBatch db chunks = foldl (\<lambda>t c. insertOrReplace t (rowOf c)) db chunks"

text \<open>
  \<open>getDocumentStats\<close>: the object \<open>files\<close> maps each filename that has rows to the
  number of its rows.
\<close>

record stats =
  totalDocuments :: nat
  files :: "string \<rightharpoonup> nat"

definition getChunkCount :: "doc list \<Rightarrow> string \<Rightarrow> nat" where
  "getChunkCount db f = length (filter (\<lambda>d. doc_filename d = f) db)"

definition getDocumentStats :: "doc list \<Rightarrow> stats" where
  "getDocumentStats db =
     \<lparr>totalDocuments = length db,
      files = (\<lambda>f. if getChunkCount db f = 0 then None else Some (getChunkCount db f))\<rparr>"

subsection \<open>searchSimilar\<close>








text \<open>Rows and chunks for the concrete runs below, and a row with its embedding cut.\<close>

definition mkDoc :: "string \<Rightarrow> string \<Rightarrow> num list \<Rightarrow> doc" where
  "mkDoc i f e = \<lparr>doc_id = i, doc_filename = f, doc_text = i, doc_embedding = e,
                  doc_page = None, doc_char_start = None, doc_char_end = None\<rparr>"

definition mkChunk :: "string \<Rightarrow> string \<Rightarrow> num list \<Rightarrow> chunk" where
  "mkChunk i f e = \<lparr>chunk_id = i, chunk_filename = f, chunk_text = i, chunk_embedding = e,
                    chunk_page = None, chunk_charStart = None, chunk_charEnd = None\<rparr>"


section \<open>Semantic chunking (services/chunking)\<close>

text \<open>
  A JavaScript string is a sequence of UTF-16 code units, and \<open>length\<close> counts them; a
  code unit is modelled by its number. \<open>str\<close> turns a literal into such a sequence.
  The sizes \<open>maxChunkSize\<close> and \<open>overlapSentences\<close> are natural numbers; a negative
  value takes the same branches as 0 in every comparison of the code.
\<close>

type_synonym jsstring = "nat list"

definition str :: "string \<Rightarrow> jsstring" where
  "str s = map of_char s"

text \<open>
  The class \<open>\s\<close>, which is also what \<open>trim\<close> removes: tab, line feed, vertical tab,
  form feed, carriage return, space, no-break space, U+1680, U+2000 to U+200A, U+2028,
  U+2029, U+202F, U+205F, U+3000 and U+FEFF. The class \<open>[.!?]\<close>.
\<close>

definition isSpace :: "nat \<Rightarrow> bool" where
  "isSpace c \<longleftrightarrow>
     c = 9 \<or> c = 10 \<or> c = 11 \<or> c = 12 \<or> c = 13 \<or> c = 32 \<or> c = 160 \<or> c = 5760 \<or>
     (8192 \<le> c \<and> c \<le> 8202) \<or> c = 8232 \<or> c = 8233 \<or> c = 8239 \<or> c = 8287 \<or>
     c = 12288 \<or> c = 65279"

definition isPunct :: "nat \<Rightarrow> bool" where
  "isPunct c \<longleftrightarrow> c = 46 \<or> c = 33 \<or> c = 63"

text \<open>
  \<open>s.replace(/C+/g, r)\<close> for a character class \<open>C\<close> and a single code unit \<open>r\<close>: every
  maximal run of the class becomes one \<open>r\<close>.
\<close>

function replaceRuns :: "(nat \<Rightarrow> bool) \<Rightarrow> nat \<Rightarrow> jsstring \<Rightarrow> jsstring" where
  "replaceRuns P r [] = []"
| "replaceRuns P r (c # cs) =
     (if P c then r # replaceRuns P r (dropWhile P cs) else c # replaceRuns P r cs)"
  by pat_completeness auto
termination
  by (relation "measure (\<lambda>(P, r, s). length s)") (auto simp: less_Suc_eq_le length_dropWhile_le)

definition trim :: "jsstring \<Rightarrow> jsstring" where
  "trim s = rev (dropWhile isSpace (rev (dropWhile isSpace s)))"

text \<open>Step 1 of \<open>splitIntoSemanticChunks\<close>: the two replacements and \<open>trim\<close>.\<close>

definition normalizeText :: "jsstring \<Rightarrow> jsstring" where
  "normalizeText text = trim (replaceRuns (\<lambda>c. c = 10) 10 (replaceRuns isSpace 32 text))"

text \<open>
  One attempt of the regular expression \<open>/[^.!?]+[.!?]+(?:\s+|$)/\<close> at the start of \<open>s\<close>:
  the longest run outside \<open>[.!?]\<close>, then the longest run inside it, both non-empty,
  then the longest run of white space, non-empty unless the input ends there. The
  result is the match and the rest of the input. Giving back characters of a greedy
  run never helps: after a shorter first run the next character is outside \<open>[.!?]\<close>,
  and after a shorter second run it is inside \<open>[.!?]\<close>, which is neither white space
  nor the end of the input. So the attempt fails exactly when the greedy one does.
\<close>

definition sentenceAt :: "jsstring \<Rightarrow> (jsstring \<times> jsstring) option" where
  "sentenceAt s =
     (let body = takeWhile (\<lambda>c. \<not> isPunct c) s;
          r1 = dropWhile (\<lambda>c. \<not> isPunct c) s;
          marks = takeWhile isPunct r1;
          r2 = dropWhile isPunct r1;
          gap = takeWhile isSpace r2;
          r3 = dropWhile isSpace r2
      in if body \<noteq> [] \<and> marks \<noteq> [] \<and> (r2 = [] \<or> gap \<noteq> [])
         then Some (body @ marks @ gap, r3) else None)"

text \<open>
  \<open>text.match(sentenceRegex)\<close> with the flag \<open>g\<close>: all matches from left to right. After
  a match the search goes on behind it; where no match starts, it moves one code unit
  forward.
\<close>

function matchSentences :: "jsstring \<Rightarrow> jsstring list" where
  "matchSentences [] = []"
| "matchSentences (c # cs) =
     (case sentenceAt (c # cs) of
        Some (m, rest) \<Rightarrow> m # matchSentences rest
      | None \<Rightarrow> matchSentences cs)"
  by pat_completeness auto
termination
proof (relation "measure length")
  fix c cs x2 m rest
  assume some: "sentenceAt (c # cs) = Some x2" and x2: "(m, rest) = x2"
  let ?s = "c # cs"
  let ?r1 = "dropWhile (\<lambda>c. \<not> isPunct c) ?s"
  let ?r2 = "dropWhile isPunct ?r1"
  have sel: "(if A then Some (x, y) else None) = Some (m, rest) \<Longrightarrow> A \<and> y = rest"
    for A and x y :: jsstring
    by (cases A) simp_all
  from some x2 have "sentenceAt ?s = Some (m, rest)" by simp
  note u = sel[OF this[unfolded sentenceAt_def Let_def]]
  from u have body: "takeWhile (\<lambda>c. \<not> isPunct c) ?s \<noteq> []" by blast
  from u have rest: "rest = dropWhile isSpace ?r2" by blast
  have "length (takeWhile (\<lambda>c. \<not> isPunct c) ?s) + length ?r1 = length ?s"
    by (simp only: length_append[symmetric] takeWhile_dropWhile_id)
  moreover have "0 < length (takeWhile (\<lambda>c. \<not> isPunct c) ?s)"
    using body by simp
  moreover have "length rest \<le> length ?r2"
    unfolding rest by (rule length_dropWhile_le)
  moreover have "length ?r2 \<le> length ?r1"
    by (rule length_dropWhile_le)
  ultimately have "length rest < length ?s" by linarith
  then show "(rest, c # cs) \<in> measure length" by simp
qed simp_all

text \<open>
  Step 2: the sentences of the normalised text. Without any match the whole text is the
  only sentence. The sentences are trimmed and the empty ones dropped.
\<close>

definition sentenceUnits :: "jsstring \<Rightarrow> jsstring list" where
  "sentenceUnits text =
     (let sentences = matchSentences text;
          sentences = (if sentences = [] then [text] else sentences)
      in filter (\<lambda>s. length s > 0) (map trim sentences))"

text \<open>
  \<open>sentence.split(/\s+/)\<close>: the pieces between the maximal runs of white space, the empty
  piece before a leading run and after a trailing run included. \<open>w\<close> is the piece read
  so far.
\<close>

function splitFrom :: "jsstring \<Rightarrow> jsstring \<Rightarrow> jsstring list" where
  "splitFrom w [] = [w]"
| "splitFrom w (c # cs) =
     (if isSpace c then w # splitFrom [] (dropWhile isSpace cs) else splitFrom (w @ [c]) cs)"
  by pat_completeness auto
termination
  by (relation "measure (\<lambda>(w, s). length s)") (auto simp: less_Suc_eq_le length_dropWhile_le)

definition splitWhitespace :: "jsstring \<Rightarrow> jsstring list" where
  "splitWhitespace s = splitFrom [] s"

text \<open>
  \<open>splitLongSentenceByWords\<close>: the body of the loop over the words, on the pair of
  \<open>subChunks\<close> and \<open>currentSubChunk\<close>, and the function. A string is truthy when it is
  not empty.
\<close>

definition wordStep :: "nat \<Rightarrow> jsstring list \<times> jsstring \<Rightarrow> jsstring \<Rightarrow> jsstring list \<times> jsstring" where
  "wordStep maxChunkSize st word =
     (case st of (subChunks, currentSubChunk) \<Rightarrow>
        (let testChunk = (if currentSubChunk \<noteq> [] then currentSubChunk @ [32] @ word else word)
         in if length testChunk > maxChunkSize \<and> currentSubChunk \<noteq> []
            then (subChunks @ [trim currentSubChunk], word)
            else (subChunks, testChunk)))"

definition splitLongSentenceByWords :: "jsstring \<Rightarrow> nat \<Rightarrow> jsstring list" where
  "splitLongSentenceByWords sentence maxChunkSize =
     (case foldl (wordStep maxChunkSize) ([], []) (splitWhitespace sentence) of
        (subChunks, currentSubChunk) \<Rightarrow>
          if length (trim currentSubChunk) > 0 then subChunks @ [trim currentSubChunk]
          else subChunks)"

text \<open>\<open>currentChunk.join(' ')\<close> and \<open>currentChunk.slice(-n)\<close> for \<open>n > 0\<close>.\<close>

fun joinSp :: "jsstring list \<Rightarrow> jsstring" where
  "joinSp [] = []"
| "joinSp [x] = x"
| "joinSp (x # y # zs) = x @ [32] @ joinSp (y # zs)"

definition lastN :: "nat \<Rightarrow> 'a list \<Rightarrow> 'a list" where
  "lastN n xs = drop (length xs - n) xs"

text \<open>
  Step 3: the body of the loop over the sentences, on the triple of \<open>chunks\<close>,
  \<open>currentChunk\<close> and \<open>currentSize\<close>. The first branch is the sentence longer than
  \<open>maxChunkSize\<close> (it ends with \<open>continue\<close>), the second the ordinary sentence.
\<close>

definition chunkStep ::
  "nat \<Rightarrow> nat \<Rightarrow> jsstring list \<times> jsstring list \<times> nat \<Rightarrow> jsstring
     \<Rightarrow> jsstring list \<times> jsstring list \<times> nat" where
  "chunkStep maxChunkSize overlapSentences st sentence =
     (case st of (chunks, currentChunk, currentSize) \<Rightarrow>
        (let sentenceSize = length sentence in
         if sentenceSize > maxChunkSize then
           (case (if currentChunk \<noteq> [] then (chunks @ [joinSp currentChunk], [], 0)
                  else (chunks, currentChunk, currentSize)) of
              (chunks, currentChunk, currentSize) \<Rightarrow>
                (chunks @ splitLongSentenceByWords sentence maxChunkSize, currentChunk, currentSize))
         else
           (let wouldExceed = (currentSize + sentenceSize > maxChunkSize) in
            case (if wouldExceed \<and> currentChunk \<noteq> [] then
                    (if overlapSentences > 0 \<and> length currentChunk > overlapSentences
                     then (chunks @ [joinSp currentChunk], lastN overlapSentences currentChunk,
                           sum_list (map length (lastN overlapSentences currentChunk)))
                     else (chunks @ [joinSp currentChunk], [], 0))
                  else (chunks, currentChunk, currentSize)) of
              (chunks, currentChunk, currentSize) \<Rightarrow>
                (chunks, currentChunk @ [sentence], currentSize + sentenceSize))))"

text \<open>The loop and the push of the last chunk: the array \<open>chunks\<close> before step 4.\<close>

definition assembleChunks :: "jsstring list \<Rightarrow> nat \<Rightarrow> nat \<Rightarrow> jsstring list" where
  "assembleChunks sentences maxChunkSize overlapSentences =
     (case foldl (chunkStep maxChunkSize overlapSentences) ([], [], 0) sentences of
        (chunks, currentChunk, currentSize) \<Rightarrow>
          if currentChunk \<noteq> [] then chunks @ [joinSp currentChunk] else chunks)"

text \<open>
  \<open>splitIntoSemanticChunks\<close>: an empty normalised text gives no chunk; step 4 trims the
  chunks and keeps those longer than 20.
\<close>

definition splitIntoSemanticChunks :: "jsstring \<Rightarrow> nat \<Rightarrow> nat \<Rightarrow> jsstring list" where
  "splitIntoSemanticChunks text maxChunkSize overlapSentences =
     (let text = normalizeText text in
      if text = [] then []
      else filter (\<lambda>chunk. length chunk > 20)
             (map trim (assembleChunks (sentenceUnits text) maxChunkSize overlapSentences)))"

section \<open>Notions used in the proofs\<close>

text \<open>
  A string within the size or without white space: what the split by words can leave.
\<close>

definition wordSized :: "nat \<Rightarrow> jsstring \<Rightarrow> bool" where
  "wordSized M p \<longleftrightarrow> length p \<le> M \<or> (\<forall>x\<in>set p. \<not> isSpace x)"

text \<open>
  What a chunk pushed by the loop can be: within the size, a single word that cannot be
  split, or the join of two or more consecutive sentences, each within the size.
\<close>

definition sizedChunk :: "nat \<Rightarrow> jsstring list \<Rightarrow> jsstring \<Rightarrow> bool" where
  "sizedChunk M ss c \<longleftrightarrow>
     wordSized M c \<or>
     (\<exists>us. 2 \<le> length us \<and> sublist us ss \<and> (\<forall>u\<in>set us. length u \<le> M) \<and> c = joinSp us)"







section \<open>Proofs: streaming relay\<close>

text \<open>
  C5. A generation that produces the increments "Hello" and " world" and then signals
  completion, however its lines are grouped into data chunks, makes the caller receive
  exactly: the sources frame, the token "Hello", the token " world", the completion frame
  with the display form and the raw text "Hello world", and the sentinel; then the
  response is ended.
\<close>

theorem streaming_hello_world:
  assumes "concat chunks =
             [JsonLine (Some ''Hello'') False, JsonLine (Some '' world'') False,
              JsonLine (Some []) True]"
  shows "handleStreamingRAGResponse sources fmt (Inr (map DataEv chunks)) fresh_response =
           (\<lparr>written = [Sources sources, Token ''Hello'', Token '' world'',
                        Done (fmt ''Hello world'') ''Hello world'', Sentinel],
             ended = True\<rparr>, None)"
proof -
  have ev: "foldl (onEvent fmt) st (map DataEv cs) = foldl (onLine fmt) st (concat cs)"
    for st :: "'a relay" and cs
    by (induction cs arbitrary: st) (simp_all add: onData_def)
  show ?thesis
    unfolding handleStreamingRAGResponse_def Let_def
    by (simp add: ev assms onLine_def res_write_def res_end_def fresh_response_def)
qed

theorem streaming_hello_world_witness:
  "concat [[JsonLine (Some ''Hello'') False], [JsonLine (Some '' world'') False,
            JsonLine (Some []) True]] =
     [JsonLine (Some ''Hello'') False, JsonLine (Some '' world'') False,
      JsonLine (Some []) True]
   \<and> handleStreamingRAGResponse (0::nat) id
       (Inr (map DataEv [[JsonLine (Some ''Hello'') False], [JsonLine (Some '' world'') False,
            JsonLine (Some []) True]])) fresh_response =
       (\<lparr>written = [Sources 0, Token ''Hello'', Token '' world'',
                    Done ''Hello world'' ''Hello world'', Sentinel],
         ended = True\<rparr>, None)"
  using streaming_hello_world [of "[[JsonLine (Some ''Hello'') False],
      [JsonLine (Some '' world'') False, JsonLine (Some []) True]]" 0 id]
  by simp

text \<open>
  C6. An error of the generation stream after the sources frame and one token: the
  listener writes the error frame and ends the response, and the sentinel is never
  written. The \<open>catch\<close> block of the route, the sibling path for an error before the
  stream exists, does write it.
\<close>

theorem stream_error_no_sentinel:
  "handleStreamingRAGResponse sources fmt
     (Inr [DataEv [JsonLine (Some ''Hello'') False], ErrorEv ''socket hang up''])
     fresh_response =
     (\<lparr>written = [Sources sources, Token ''Hello'', Error ''socket hang up''],
       ended = True\<rparr>, None)
   \<and> publicQueryStream (Inr sources) fmt (Inl ''socket hang up'') =
     \<lparr>written = [Sources sources, Error ''socket hang up'', Sentinel], ended = True\<rparr>"
  by (simp add: handleStreamingRAGResponse_def publicQueryStream_def route_catch_def
      onData_def onError_def onLine_def res_write_def res_end_def fresh_response_def)

section \<open>Proofs: vector store\<close>

subsection \<open>Batch insertion\<close>

lemma batch_split:
  "insertChunksBatch db cs =
     filter (\<lambda>d. doc_id d \<notin> chunk_id ` set cs) db @ insertChunksBatch [] cs"
proof (induction cs arbitrary: db)
  case Nil
  show ?case by (simp add: insertChunksBatch_def)
next
  case (Cons c cs)
  have step: "insertChunksBatch t (c # cs) = insertChunksBatch (insertOrReplace t (rowOf c)) cs" for t
    by (simp add: insertChunksBatch_def)
  have id: "doc_id (rowOf c) = chunk_id c" by (simp add: rowOf_def)
  let ?P = "\<lambda>d. doc_id d \<notin> chunk_id ` set cs"
  have a: "insertChunksBatch db (c # cs)
      = filter ?P (insertOrReplace db (rowOf c)) @ insertChunksBatch [] cs"
    by (simp only: step) (rule Cons.IH)
  have b: "filter ?P (insertOrReplace db (rowOf c))
      = filter (\<lambda>d. doc_id d \<notin> chunk_id ` set (c # cs)) db @ filter ?P [rowOf c]"
    by (auto simp: insertOrReplace_def id intro!: filter_cong)
  have c: "insertChunksBatch [] (c # cs) = filter ?P [rowOf c] @ insertChunksBatch [] cs"
    using Cons.IH[of "[rowOf c]"] by (simp add: step insertOrReplace_def)
  show ?case by (simp only: a b c append_assoc)
qed

lemma batch_ids:
  "d \<in> set (insertChunksBatch db cs) \<Longrightarrow> d \<in> set db \<or> doc_id d \<in> chunk_id ` set cs"
proof (induction cs arbitrary: db)
  case Nil
  then show ?case by (simp add: insertChunksBatch_def)
next
  case (Cons c cs)
  have step: "insertChunksBatch t (c # cs) = insertChunksBatch (insertOrReplace t (rowOf c)) cs" for t
    by (simp add: insertChunksBatch_def)
  from Cons.prems have "d \<in> set (insertChunksBatch (insertOrReplace db (rowOf c)) cs)"
    by (simp only: step)
  from Cons.IH[OF this] show ?case
    by (auto simp: insertOrReplace_def rowOf_def)
qed

lemma batch_idem: "insertChunksBatch (insertChunksBatch db cs) cs = insertChunksBatch db cs"
proof -
  have e: "filter (\<lambda>d. doc_id d \<notin> chunk_id ` set cs) (insertChunksBatch [] cs) = []"
    using batch_ids[of _ "[]" cs] by (auto simp: filter_empty_conv)
  have "insertChunksBatch (insertChunksBatch db cs) cs
      = filter (\<lambda>d. doc_id d \<notin> chunk_id ` set cs) (insertChunksBatch db cs) @ insertChunksBatch [] cs"
    by (rule batch_split)
  also have "filter (\<lambda>d. doc_id d \<notin> chunk_id ` set cs) (insertChunksBatch db cs)
      = filter (\<lambda>d. doc_id d \<notin> chunk_id ` set cs) db"
    by (subst batch_split) (simp add: e)
  finally show ?thesis by (simp add: batch_split[symmetric])
qed


lemma distinct_insertOrReplace:
  "distinct (map doc_id db) \<Longrightarrow> distinct (map doc_id (insertOrReplace db r))"
  by (auto simp: insertOrReplace_def distinct_map_filter)

lemma distinct_insertChunksBatch:
  "distinct (map doc_id db) \<Longrightarrow> distinct (map doc_id (insertChunksBatch db cs))"
proof (induction cs arbitrary: db)
  case Nil
  then show ?case by (simp add: insertChunksBatch_def)
next
  case (Cons c cs)
  have "insertChunksBatch db (c # cs) = insertChunksBatch (insertOrReplace db (rowOf c)) cs"
    by (simp add: insertChunksBatch_def)
  then show ?case using Cons by (simp add: distinct_insertOrReplace)
qed

text \<open>
  C9. Inserting the same batch a second time leaves the table as the first insertion left
  it, so the statistics, and with them every per-file count, are unchanged; and the ids
  stay pairwise distinct: no duplicate row is created.
\<close>

theorem reingest_idempotent:
  "getDocumentStats (insertChunksBatch (insertChunksBatch db chunks) chunks)
     = getDocumentStats (insertChunksBatch db chunks)
   \<and> (distinct (map doc_id db) \<longrightarrow>
        distinct (map doc_id (insertChunksBatch (insertChunksBatch db chunks) chunks)))"
  by (simp add: batch_idem distinct_insertChunksBatch)

lemma batch_ex:
  "insertChunksBatch [] [mkChunk ''a_chunk_0'' ''a'' [Fin 1], mkChunk ''a_chunk_1'' ''a'' [Fin 0]]
     = [mkDoc ''a_chunk_0'' ''a'' [Fin 1], mkDoc ''a_chunk_1'' ''a'' [Fin 0]]"
  by (simp add: insertChunksBatch_def insertOrReplace_def rowOf_def mkChunk_def mkDoc_def
      jsonRoundTrip_def orNull_def)

theorem reingest_idempotent_witness:
  "distinct (map doc_id [])
   \<and> files (getDocumentStats (insertChunksBatch []
          [mkChunk ''a_chunk_0'' ''a'' [Fin 1], mkChunk ''a_chunk_1'' ''a'' [Fin 0]])) ''a'' = Some 2
   \<and> files (getDocumentStats (insertChunksBatch (insertChunksBatch []
          [mkChunk ''a_chunk_0'' ''a'' [Fin 1], mkChunk ''a_chunk_1'' ''a'' [Fin 0]])
          [mkChunk ''a_chunk_0'' ''a'' [Fin 1], mkChunk ''a_chunk_1'' ''a'' [Fin 0]])) ''a'' = Some 2
   \<and> distinct (map doc_id (insertChunksBatch (insertChunksBatch []
          [mkChunk ''a_chunk_0'' ''a'' [Fin 1], mkChunk ''a_chunk_1'' ''a'' [Fin 0]])
          [mkChunk ''a_chunk_0'' ''a'' [Fin 1], mkChunk ''a_chunk_1'' ''a'' [Fin 0]]))"
proof -
  let ?cs = "[mkChunk ''a_chunk_0'' ''a'' [Fin 1], mkChunk ''a_chunk_1'' ''a'' [Fin 0]]"
  have h: "distinct (map doc_id [])" by simp
  have s: "files (getDocumentStats (insertChunksBatch [] ?cs)) ''a'' = Some 2"
    by (simp add: batch_ex getDocumentStats_def getChunkCount_def mkDoc_def)
  note t = reingest_idempotent [of "[]" ?cs]
  have e: "getDocumentStats (insertChunksBatch (insertChunksBatch [] ?cs) ?cs)
             = getDocumentStats (insertChunksBatch [] ?cs)"
    by (rule conjunct1 [OF t])
  have d: "distinct (map doc_id (insertChunksBatch (insertChunksBatch [] ?cs) ?cs))"
    by (rule mp [OF conjunct2 [OF t] h])
  show ?thesis
    unfolding e using h s d by blast
qed

subsection \<open>Ranking\<close>













subsection \<open>Embeddings of another length\<close>


















subsection \<open>The cosine in exact arithmetic\<close>

text \<open>
  For vectors of real numbers of one length, the loop computes the three sums and the
  result is their quotient. These facts are about the exact arithmetic of the model, not
  about the rounding, overflow and underflow of doubles.
\<close>

lemma cosine_fold_exact:
  assumes "length ys = length xs" and "k \<le> length xs"
  shows "foldl (cosineStep (map Fin xs) (map Fin ys)) (Fin 0, Fin 0, Fin 0) [0..<k]
         = (Fin (\<Sum>i<k. xs ! i * ys ! i), Fin (\<Sum>i<k. xs ! i * xs ! i), Fin (\<Sum>i<k. ys ! i * ys ! i))"
  using assms(2)
proof (induction k)
  case 0
  show ?case by simp
next
  case (Suc k)
  then have k: "k < length xs" "k < length ys" using assms(1) by simp_all
  have ih: "foldl (cosineStep (map Fin xs) (map Fin ys)) (Fin 0, Fin 0, Fin 0) [0..<k]
         = (Fin (\<Sum>i<k. xs ! i * ys ! i), Fin (\<Sum>i<k. xs ! i * xs ! i), Fin (\<Sum>i<k. ys ! i * ys ! i))"
    using Suc by simp
  have a: "elemAt (map Fin xs) k = Fin (xs ! k)" and b: "elemAt (map Fin ys) k = Fin (ys ! k)"
    using k by (simp_all add: elemAt_def)
  have "foldl (cosineStep (map Fin xs) (map Fin ys)) (Fin 0, Fin 0, Fin 0) [0..<Suc k]
      = cosineStep (map Fin xs) (map Fin ys)
          (Fin (\<Sum>i<k. xs ! i * ys ! i), Fin (\<Sum>i<k. xs ! i * xs ! i), Fin (\<Sum>i<k. ys ! i * ys ! i)) k"
    by (simp add: ih)
  also have "\<dots> = (Fin (\<Sum>i<Suc k. xs ! i * ys ! i), Fin (\<Sum>i<Suc k. xs ! i * xs ! i),
                    Fin (\<Sum>i<Suc k. ys ! i * ys ! i))"
    unfolding cosineStep_def by (simp add: a b)
  finally show ?case .
qed

lemma cosineSimilarity_exact:
  assumes "length ys = length xs"
  shows "cosineSimilarity (map Fin xs) (map Fin ys) =
     (if (\<Sum>i<length xs. xs ! i * xs ! i) = 0 \<or> (\<Sum>i<length xs. ys ! i * ys ! i) = 0 then Fin 0
      else Fin ((\<Sum>i<length xs. xs ! i * ys ! i) /
                (sqrt (\<Sum>i<length xs. xs ! i * xs ! i) * sqrt (\<Sum>i<length xs. ys ! i * ys ! i))))"
proof -
  have nn: "\<not> (\<Sum>i<length xs. zs ! i * zs ! i) < 0" for zs :: "real list"
    unfolding not_less by (rule sum_nonneg) simp
  show ?thesis
    unfolding cosineSimilarity_def
    by (simp add: cosine_fold_exact[OF assms order_refl] Let_def nn)
qed

lemma sum_squares_pos:
  assumes "x \<in> set xs" and "x \<noteq> (0::real)"
  shows "0 < (\<Sum>i<length xs. xs ! i * xs ! i)"
proof -
  from assms(1) obtain j where j: "j < length xs" "xs ! j = x" by (auto simp: in_set_conv_nth)
  have "(\<Sum>i<length xs. xs ! i * xs ! i) \<noteq> 0"
  proof
    assume "(\<Sum>i<length xs. xs ! i * xs ! i) = 0"
    then have "\<forall>i\<in>{..<length xs}. xs ! i * xs ! i = 0"
      by (subst (asm) sum_nonneg_eq_0_iff) simp_all
    with j have "x * x = 0" by auto
    with assms(2) show False by simp
  qed
  moreover have "0 \<le> (\<Sum>i<length xs. xs ! i * xs ! i)" by (rule sum_nonneg) simp
  ultimately show ?thesis by linarith
qed

lemma cosineSimilarity_self_exact:
  assumes "x \<in> set xs" and "x \<noteq> 0"
  shows "cosineSimilarity (map Fin xs) (map Fin xs) = Fin 1"
proof -
  have p: "0 < (\<Sum>i<length xs. xs ! i * xs ! i)" using assms by (rule sum_squares_pos)
  then show ?thesis by (simp add: cosineSimilarity_exact)
qed

lemma cosineSimilarity_zero_exact:
  "cosineSimilarity (map Fin xs) (map Fin (replicate (length xs) 0)) = Fin 0"
  using cosineSimilarity_exact[of "replicate (length xs) 0" xs] by simp

lemma cosineSimilarity_defined_exact:
  "length ys = length xs \<Longrightarrow> cosineSimilarity (map Fin xs) (map Fin ys) \<noteq> NaN"
  by (simp add: cosineSimilarity_exact)

section \<open>Proofs: semantic chunking\<close>

subsection \<open>Concrete runs\<close>

lemmas seg_eval = str_def normalizeText_def trim_def isSpace_def isPunct_def sentenceUnits_def
  sentenceAt_def Let_def splitIntoSemanticChunks_def assembleChunks_def chunkStep_def
  splitLongSentenceByWords_def wordStep_def splitWhitespace_def lastN_def

text \<open>
  C7 as the code has it. With \<open>maxChunkSize = 20\<close> and no overlap the second sentence, 21
  code units long, is split by words; the chunks before step 4 are "Cats are mammals.",
  "Dogs are mammals" and "too.", none of them longer than 20, and the function returns
  no chunk at all.
\<close>

theorem cats_dogs_no_fragments:
  "sentenceUnits (normalizeText (str ''Cats are mammals. Dogs are mammals too.''))
     = [str ''Cats are mammals.'', str ''Dogs are mammals too.'']
   \<and> assembleChunks (sentenceUnits (normalizeText (str ''Cats are mammals. Dogs are mammals too.''))) 20 0
     = [str ''Cats are mammals.'', str ''Dogs are mammals'', str ''too.'']
   \<and> splitIntoSemanticChunks (str ''Cats are mammals. Dogs are mammals too.'') 20 0 = []"
  by (simp add: seg_eval)

theorem cats_dogs_counterexample:
  "splitIntoSemanticChunks (str ''Cats are mammals. Dogs are mammals too.'') 20 0
     \<noteq> [str ''Cats are mammals.'', str ''Dogs are mammals too.'']"
  by (simp add: seg_eval)

subsection \<open>Lengths\<close>

lemma length_trim_le: "length (trim s) \<le> length s"
  unfolding trim_def by (metis length_rev length_dropWhile_le order_trans)

lemma set_trim_subset: "set (trim s) \<subseteq> set s"
  by (auto simp: trim_def dest!: set_dropWhileD)

lemma length_replaceRuns_le: "length (replaceRuns P r s) \<le> length s"
proof (induction P r s rule: replaceRuns.induct)
  case (1 P r)
  show ?case by simp
next
  case (2 P r c cs)
  show ?case
  proof (cases "P c")
    case True
    have "length (replaceRuns P r (dropWhile P cs)) \<le> length (dropWhile P cs)"
      using 2(1)[OF True] .
    also have "\<dots> \<le> length cs" by (rule length_dropWhile_le)
    finally show ?thesis using True by simp
  next
    case False
    then show ?thesis using 2(2) by simp
  qed
qed

lemma length_normalizeText_le: "length (normalizeText t) \<le> length t"
  unfolding normalizeText_def
  by (meson length_trim_le length_replaceRuns_le order_trans)

lemma joinSp_Cons: "joinSp (x # xs) = (if xs = [] then x else x @ [32] @ joinSp xs)"
  by (cases xs) simp_all

lemma length_joinSp_snoc:
  "length (joinSp (xs @ [x])) = (if xs = [] then length x else length (joinSp xs) + Suc (length x))"
  by (induction xs) (simp_all add: joinSp_Cons)

lemma length_joinSp_drop: "length (joinSp (drop n xs)) \<le> length (joinSp xs)"
proof (induction xs arbitrary: n)
  case Nil
  show ?case by simp
next
  case (Cons x xs)
  show ?case
  proof (cases n)
    case 0
    then show ?thesis by simp
  next
    case (Suc k)
    have "length (joinSp (drop k xs)) \<le> length (joinSp xs)" by (rule Cons.IH)
    then show ?thesis using Suc by (simp add: joinSp_Cons)
  qed
qed

lemma joinSp_snoc_mono:
  assumes "length (joinSp base) \<le> length (joinSp pre)" and "base \<noteq> [] \<longrightarrow> pre \<noteq> []"
  shows "length (joinSp (base @ [s])) \<le> length (joinSp (pre @ [s]))"
  using assms by (auto simp: length_joinSp_snoc)

lemma joinSp_le_snoc: "length (joinSp pre) \<le> length (joinSp (pre @ [s]))"
  by (simp add: length_joinSp_snoc)

lemma splitFrom_nonempty: "splitFrom w s \<noteq> []"
  by (induction w s rule: splitFrom.induct) auto

lemma length_joinSp_splitFrom: "length (joinSp (splitFrom w s)) \<le> length w + length s"
proof (induction w s rule: splitFrom.induct)
  case (1 w)
  show ?case by simp
next
  case (2 w c cs)
  show ?case
  proof (cases "isSpace c")
    case True
    have "length (joinSp (splitFrom [] (dropWhile isSpace cs))) \<le> length (dropWhile isSpace cs)"
      using 2(1)[OF True] by simp
    also have "\<dots> \<le> length cs" by (rule length_dropWhile_le)
    finally show ?thesis using True by (simp add: joinSp_Cons splitFrom_nonempty)
  next
    case False
    then show ?thesis using 2(2) by simp
  qed
qed

lemma wordStep_push:
  "cur \<noteq> [] \<Longrightarrow> M < length (cur @ [32] @ w) \<Longrightarrow>
   wordStep M (subs, cur) w = (subs @ [trim cur], w)"
  unfolding wordStep_def Let_def prod.case by (simp only: if_True simp_thms)

lemma wordStep_grow:
  "cur \<noteq> [] \<Longrightarrow> \<not> M < length (cur @ [32] @ w) \<Longrightarrow>
   wordStep M (subs, cur) w = (subs, cur @ [32] @ w)"
  unfolding wordStep_def Let_def prod.case by (simp only: if_True if_False simp_thms)

lemma wordStep_first:
  "wordStep M (subs, []) w = (subs, w)"
  unfolding wordStep_def Let_def prod.case by (simp only: if_False simp_thms)

lemma wordStep_bound:
  assumes "foldl (wordStep M) ([], []) ws = (subs, cur)"
  shows "(\<forall>p\<in>set subs. length p \<le> length (joinSp ws))
         \<and> length cur \<le> length (joinSp ws) \<and> (cur \<noteq> [] \<longrightarrow> ws \<noteq> [])"
  using assms
proof (induction ws arbitrary: subs cur rule: rev_induct)
  case Nil
  then show ?case by simp
next
  case (snoc w ws)
  obtain subs0 cur0 where f: "foldl (wordStep M) ([], []) ws = (subs0, cur0)"
    by (cases "foldl (wordStep M) ([], []) ws") auto
  note ih = snoc.IH[OF f]
  from ih have subs0: "\<And>p. p \<in> set subs0 \<Longrightarrow> length p \<le> length (joinSp ws)"
    and cur0: "length cur0 \<le> length (joinSp ws)" and ne: "cur0 \<noteq> [] \<Longrightarrow> ws \<noteq> []"
    by blast+
  have mono: "length (joinSp ws) \<le> length (joinSp (ws @ [w]))" by (rule joinSp_le_snoc)
  have w: "length w \<le> length (joinSp (ws @ [w]))" by (simp add: length_joinSp_snoc)
  have t: "length (trim cur0) \<le> length (joinSp (ws @ [w]))"
    using length_trim_le[of cur0] cur0 mono by linarith
  have s': "length p \<le> length (joinSp (ws @ [w]))" if "p \<in> set subs0" for p
    using subs0[OF that] mono by linarith
  have step: "wordStep M (subs0, cur0) w = (subs, cur)"
    using snoc.prems by (simp add: f)
  show ?case
  proof (cases "cur0 = []")
    case True
    from step[unfolded True wordStep_first]
    have "subs = subs0" and "cur = w" by simp_all
    then show ?thesis using s' w by simp
  next
    case ne0: False
    then have wsne: "ws \<noteq> []" by (rule ne)
    show ?thesis
    proof (cases "M < length (cur0 @ [32] @ w)")
      case True
      from step[unfolded wordStep_push[OF ne0 True]]
      have "subs = subs0 @ [trim cur0]" and "cur = w" by simp_all
      then show ?thesis using s' t w by auto
    next
      case False
      from step[unfolded wordStep_grow[OF ne0 False]]
      have e: "subs = subs0" "cur = cur0 @ [32] @ w" by simp_all
      have "length cur \<le> length (joinSp (ws @ [w]))"
        using e wsne cur0 by (simp add: length_joinSp_snoc)
      then show ?thesis using e s' by simp
    qed
  qed
qed

lemma splitLong_le: "p \<in> set (splitLongSentenceByWords s M) \<Longrightarrow> length p \<le> length s"
proof -
  assume p: "p \<in> set (splitLongSentenceByWords s M)"
  obtain subs cur where f: "foldl (wordStep M) ([], []) (splitWhitespace s) = (subs, cur)"
    by (cases "foldl (wordStep M) ([], []) (splitWhitespace s)") auto
  have b: "length (joinSp (splitWhitespace s)) \<le> length s"
    using length_joinSp_splitFrom[of "[]" s] by (simp add: splitWhitespace_def)
  from wordStep_bound[OF f]
  have subs: "\<And>p. p \<in> set subs \<Longrightarrow> length p \<le> length (joinSp (splitWhitespace s))"
    and cur: "length cur \<le> length (joinSp (splitWhitespace s))" by blast+
  have "splitLongSentenceByWords s M = (if length (trim cur) > 0 then subs @ [trim cur] else subs)"
    by (simp add: splitLongSentenceByWords_def f)
  with p have "p \<in> set subs \<or> p = trim cur"
    by (auto split: if_splits)
  then show ?thesis
  proof
    assume "p \<in> set subs"
    from subs[OF this] b show ?thesis by linarith
  next
    assume "p = trim cur"
    then have "length p \<le> length cur" by (simp add: length_trim_le)
    with cur b show ?thesis by linarith
  qed
qed


lemma trim_append_spaces:
  assumes "\<forall>c\<in>set g. isSpace c"
  shows "trim (x @ g) = trim x"
proof (cases "\<forall>c\<in>set x. isSpace c")
  case True
  have a: "dropWhile isSpace (x @ g) = []"
    using True assms by (simp add: dropWhile_eq_Nil_conv ball_Un)
  have b: "dropWhile isSpace x = []"
    using True by (simp add: dropWhile_eq_Nil_conv)
  show ?thesis unfolding trim_def a b by simp
next
  case False
  then obtain c where c: "c \<in> set x" "\<not> isSpace c" by blast
  have 1: "dropWhile isSpace (x @ g) = dropWhile isSpace x @ g"
    using c by (rule dropWhile_append1)
  have 2: "dropWhile isSpace (rev g @ rev (dropWhile isSpace x)) = dropWhile isSpace (rev (dropWhile isSpace x))"
    by (rule dropWhile_append2) (use assms in auto)
  show ?thesis by (simp add: trim_def 1 2)
qed

lemma sentenceAt_SomeD:
  assumes "sentenceAt s = Some (m, rest)"
  shows "s = m @ rest" and "rest = [] \<or> length (trim m) < length m"
proof -
  let ?body = "takeWhile (\<lambda>c. \<not> isPunct c) s"
  let ?r1 = "dropWhile (\<lambda>c. \<not> isPunct c) s"
  let ?marks = "takeWhile isPunct ?r1"
  let ?r2 = "dropWhile isPunct ?r1"
  let ?gap = "takeWhile isSpace ?r2"
  let ?r3 = "dropWhile isSpace ?r2"
  have sel: "(if A then Some (x, y) else None) = Some (m, rest) \<Longrightarrow> A \<and> x = m \<and> y = rest"
    for A and x y :: jsstring
    by (cases A) simp_all
  note u = sel[OF assms[unfolded sentenceAt_def Let_def]]
  from u have m: "m = ?body @ ?marks @ ?gap" and rest: "rest = ?r3"
    and marks: "?marks \<noteq> []" and alt: "?r2 = [] \<or> ?gap \<noteq> []"
    by blast+
  have "s = ?body @ ?r1" by simp
  also have "?r1 = ?marks @ ?r2" by simp
  also have "?r2 = ?gap @ ?r3" by simp
  finally show "s = m @ rest" unfolding m rest by simp
  from alt show "rest = [] \<or> length (trim m) < length m"
  proof
    assume e: "?r2 = []"
    have "rest = dropWhile isSpace []" unfolding rest e ..
    then show ?thesis by simp
  next
    assume gap: "?gap \<noteq> []"
    have sp: "\<forall>c\<in>set ?gap. isSpace c"
      by (blast dest: set_takeWhileD)
    have "trim m = trim (?body @ ?marks)"
      unfolding m using trim_append_spaces[OF sp, of "?body @ ?marks"]
      by (simp only: append_assoc)
    then have "length (trim m) \<le> length (?body @ ?marks)"
      by (simp only: length_trim_le)
    also have "\<dots> < length (?body @ ?marks) + length ?gap"
    proof -
      from gap have "0 < length ?gap" by (rule length_greater_0_conv[THEN iffD2])
      then show ?thesis by linarith
    qed
    also have "\<dots> = length m" unfolding m by (simp only: length_append add.assoc)
    finally show ?thesis ..
  qed
qed

lemma match_weight:
  "sum_list (map (\<lambda>m. Suc (length (trim m))) (matchSentences s)) \<le> Suc (length s)"
proof (induction s rule: matchSentences.induct)
  case 1
  show ?case by simp
next
  case (2 c cs)
  show ?case
  proof (cases "sentenceAt (c # cs)")
    case None
    have "matchSentences (c # cs) = matchSentences cs" by (simp add: None)
    then show ?thesis using 2(1)[OF None] by simp
  next
    case (Some x2)
    obtain m rest where x2: "x2 = (m, rest)" by (cases x2)
    have sa: "sentenceAt (c # cs) = Some (m, rest)" using Some x2 by simp
    note ih = 2(2)[OF Some x2[symmetric]]
    note d = sentenceAt_SomeD[OF sa]
    have len: "length (c # cs) = length m + length rest"
      using arg_cong[OF d(1), of length] by (simp only: length_append)
    have ms: "matchSentences (c # cs) = m # matchSentences rest"
      by (simp add: sa)
    from d(2) show ?thesis
    proof
      assume "rest = []"
      then have "matchSentences (c # cs) = [m]" using ms by simp
      moreover have "length (trim m) \<le> length (c # cs)"
        using length_trim_le[of m] len by linarith
      ultimately show ?thesis by simp
    next
      assume "length (trim m) < length m"
      then show ?thesis using ih len unfolding ms by simp
    qed
  qed
qed

lemma joinSp_weight_eq:
  "us \<noteq> [] \<Longrightarrow> Suc (length (joinSp us)) = sum_list (map (\<lambda>u. Suc (length u)) us)"
  by (induction us) (auto simp: joinSp_Cons)

lemma joinSp_weight: "length (joinSp us) \<le> sum_list (map (\<lambda>u. Suc (length u)) us) - 1"
  using joinSp_weight_eq[of us] by (cases "us = []") simp_all

lemma weight_filter:
  "sum_list (map (\<lambda>u. Suc (length u)) (filter P us)) \<le> sum_list (map (\<lambda>u. Suc (length u)) us)"
  by (induction us) auto

lemma sentenceUnits_bound: "length (joinSp (sentenceUnits t)) \<le> length t"
proof (cases "matchSentences t = []")
  case True
  then have "sentenceUnits t = filter (\<lambda>s. length s > 0) [trim t]"
    by (simp add: sentenceUnits_def)
  then show ?thesis using length_trim_le[of t] by simp
next
  case False
  then have u: "sentenceUnits t = filter (\<lambda>s. length s > 0) (map trim (matchSentences t))"
    by (simp add: sentenceUnits_def)
  have "length (joinSp (sentenceUnits t))
      \<le> sum_list (map (\<lambda>u. Suc (length u)) (sentenceUnits t)) - 1"
    by (rule joinSp_weight)
  also have "\<dots> \<le> sum_list (map (\<lambda>u. Suc (length u)) (map trim (matchSentences t))) - 1"
    unfolding u by (rule diff_le_mono) (rule weight_filter)
  also have "\<dots> \<le> Suc (length t) - 1"
    using match_weight[of t] by (simp add: comp_def)
  finally show ?thesis by simp
qed

subsection \<open>The steps of the loop\<close>

lemma chunkStep_long:
  assumes "maxChunkSize < length s"
  shows "chunkStep maxChunkSize ov (chunks, cur, sz) s =
     ((if cur \<noteq> [] then chunks @ [joinSp cur] else chunks) @ splitLongSentenceByWords s maxChunkSize,
      [], if cur \<noteq> [] then 0 else sz)"
  unfolding chunkStep_def Let_def prod.case using assms
  by (cases "cur = []") (simp_all only: if_True if_False prod.case simp_thms)

lemma chunkStep_flush:
  assumes "\<not> maxChunkSize < length s" and "maxChunkSize < sz + length s" and "cur \<noteq> []"
  shows "chunkStep maxChunkSize ov (chunks, cur, sz) s =
     (chunks @ [joinSp cur],
      (if 0 < ov \<and> ov < length cur then lastN ov cur else []) @ [s],
      (if 0 < ov \<and> ov < length cur then sum_list (map length (lastN ov cur)) else 0) + length s)"
  unfolding chunkStep_def Let_def prod.case using assms
  by (cases "0 < ov \<and> ov < length cur") (simp_all only: if_True if_False prod.case simp_thms)

lemma chunkStep_add:
  assumes "\<not> maxChunkSize < length s" and "\<not> (maxChunkSize < sz + length s \<and> cur \<noteq> [])"
  shows "chunkStep maxChunkSize ov (chunks, cur, sz) s = (chunks, cur @ [s], sz + length s)"
  unfolding chunkStep_def Let_def prod.case using assms
  by (simp only: if_True if_False prod.case simp_thms)

text \<open>The three shapes a step can have, without the conditions on the sizes.\<close>

lemma chunkStep_shape:
  obtains
    (long) "maxChunkSize < length s"
      "chunkStep maxChunkSize ov (chunks, cur, sz) s =
         ((if cur \<noteq> [] then chunks @ [joinSp cur] else chunks) @ splitLongSentenceByWords s maxChunkSize,
          [], if cur \<noteq> [] then 0 else sz)"
  | (flush) "length s \<le> maxChunkSize" "cur \<noteq> []" "maxChunkSize < sz + length s"
      "chunkStep maxChunkSize ov (chunks, cur, sz) s =
         (chunks @ [joinSp cur],
          (if 0 < ov \<and> ov < length cur then lastN ov cur else []) @ [s],
          (if 0 < ov \<and> ov < length cur then sum_list (map length (lastN ov cur)) else 0) + length s)"
  | (add) "length s \<le> maxChunkSize" "\<not> (maxChunkSize < sz + length s \<and> cur \<noteq> [])"
      "chunkStep maxChunkSize ov (chunks, cur, sz) s = (chunks, cur @ [s], sz + length s)"
proof (cases "maxChunkSize < length s")
  case True
  then show ?thesis using chunkStep_long[OF True] long by blast
next
  case False
  then have le: "length s \<le> maxChunkSize" by simp
  show ?thesis
  proof (cases "maxChunkSize < sz + length s \<and> cur \<noteq> []")
    case True
    then show ?thesis using chunkStep_flush[OF False] le flush by blast
  next
    case F: False
    show ?thesis using chunkStep_add[OF False F] le F add by blast
  qed
qed

lemma chunk_fold_invariant:
  assumes "I [] ([], [], 0)"
    and "\<And>pre chunks cur sz s. I pre (chunks, cur, sz) \<Longrightarrow>
           I (pre @ [s]) (chunkStep maxChunkSize ov (chunks, cur, sz) s)"
  shows "I ss (foldl (chunkStep maxChunkSize ov) ([], [], 0) ss)"
proof (induction ss rule: rev_induct)
  case Nil
  show ?case using assms(1) by simp
next
  case (snoc s ss)
  obtain chunks cur sz where f: "foldl (chunkStep maxChunkSize ov) ([], [], 0) ss = (chunks, cur, sz)"
    by (cases "foldl (chunkStep maxChunkSize ov) ([], [], 0) ss") auto
  from snoc have "I ss (chunks, cur, sz)" by (simp only: f)
  from assms(2)[OF this] show ?case by (simp add: f)
qed

subsection \<open>No chunk is longer than the text\<close>

lemma chunkStep_bound:
  assumes "(\<forall>c\<in>set chunks. length c \<le> length (joinSp pre))
           \<and> length (joinSp cur) \<le> length (joinSp pre) \<and> (cur \<noteq> [] \<longrightarrow> pre \<noteq> [])"
    and "chunkStep maxChunkSize ov (chunks, cur, sz) s = (chunks', cur', sz')"
  shows "(\<forall>c\<in>set chunks'. length c \<le> length (joinSp (pre @ [s])))
         \<and> length (joinSp cur') \<le> length (joinSp (pre @ [s])) \<and> (cur' \<noteq> [] \<longrightarrow> pre @ [s] \<noteq> [])"
proof -
  from assms(1) have old: "\<And>c. c \<in> set chunks \<Longrightarrow> length c \<le> length (joinSp pre)"
    and cur: "length (joinSp cur) \<le> length (joinSp pre)" and ne: "cur \<noteq> [] \<Longrightarrow> pre \<noteq> []"
    by blast+
  have mono: "length (joinSp pre) \<le> length (joinSp (pre @ [s]))" by (rule joinSp_le_snoc)
  have old': "length c \<le> length (joinSp (pre @ [s]))" if "c \<in> set chunks" for c
    using old[OF that] mono by linarith
  have pushed: "length (joinSp cur) \<le> length (joinSp (pre @ [s]))"
    using cur mono by linarith
  have s: "length s \<le> length (joinSp (pre @ [s]))" by (simp add: length_joinSp_snoc)
  have pieces: "length p \<le> length (joinSp (pre @ [s]))"
    if "p \<in> set (splitLongSentenceByWords s maxChunkSize)" for p
    using splitLong_le[OF that] s by linarith
  show ?thesis
  proof (cases rule: chunkStep_shape[of maxChunkSize s ov chunks cur sz])
    case long
    from assms(2)[unfolded long(2)]
    have e: "chunks' = (if cur \<noteq> [] then chunks @ [joinSp cur] else chunks)
               @ splitLongSentenceByWords s maxChunkSize" "cur' = []"
      by simp_all
    show ?thesis unfolding e using old' pushed pieces by auto
  next
    case flush
    from assms(2)[unfolded flush(4)]
    have e: "chunks' = chunks @ [joinSp cur]"
      "cur' = (if 0 < ov \<and> ov < length cur then lastN ov cur else []) @ [s]"
      by simp_all
    let ?seed = "if 0 < ov \<and> ov < length cur then lastN ov cur else []"
    have "length (joinSp ?seed) \<le> length (joinSp cur)"
      using length_joinSp_drop[of "length cur - ov" cur] by (simp add: lastN_def)
    then have 1: "length (joinSp ?seed) \<le> length (joinSp pre)" using cur by linarith
    have 2: "?seed \<noteq> [] \<longrightarrow> pre \<noteq> []" using ne flush(2) by simp
    have "length (joinSp (?seed @ [s])) \<le> length (joinSp (pre @ [s]))"
      using 1 2 by (rule joinSp_snoc_mono)
    then show ?thesis unfolding e using old' pushed by auto
  next
    case add
    from assms(2)[unfolded add(3)]
    have e: "chunks' = chunks" "cur' = cur @ [s]" by simp_all
    have "length (joinSp (cur @ [s])) \<le> length (joinSp (pre @ [s]))"
      using cur ne by (intro joinSp_snoc_mono) auto
    then show ?thesis unfolding e using old' by auto
  qed
qed

lemma chunk_fold_bound:
  assumes "foldl (chunkStep maxChunkSize ov) ([], [], 0) ss = (chunks, cur, sz)"
  shows "(\<forall>c\<in>set chunks. length c \<le> length (joinSp ss))
         \<and> length (joinSp cur) \<le> length (joinSp ss) \<and> (cur \<noteq> [] \<longrightarrow> ss \<noteq> [])"
proof -
  let ?I = "\<lambda>pre st. case st of (chunks, cur, sz) \<Rightarrow>
     (\<forall>c\<in>set chunks. length c \<le> length (joinSp pre))
     \<and> length (joinSp cur) \<le> length (joinSp pre) \<and> (cur \<noteq> [] \<longrightarrow> pre \<noteq> [])"
  have "?I ss (foldl (chunkStep maxChunkSize ov) ([], [], 0) ss)"
  proof (rule chunk_fold_invariant)
    show "?I [] ([], [], 0)" by simp
  next
    fix pre chunks cur :: "jsstring list" and sz :: nat and s :: jsstring
    assume i: "?I pre (chunks, cur, sz)"
    obtain chunks' cur' sz' where st: "chunkStep maxChunkSize ov (chunks, cur, sz) s = (chunks', cur', sz')"
      by (cases "chunkStep maxChunkSize ov (chunks, cur, sz) s") auto
    from i have "(\<forall>c\<in>set chunks. length c \<le> length (joinSp pre))
           \<and> length (joinSp cur) \<le> length (joinSp pre) \<and> (cur \<noteq> [] \<longrightarrow> pre \<noteq> [])"
      by simp
    from chunkStep_bound[OF this st]
    show "?I (pre @ [s]) (chunkStep maxChunkSize ov (chunks, cur, sz) s)"
      unfolding st by simp
  qed
  then show ?thesis unfolding assms by simp
qed

lemma assembleChunks_bound:
  assumes "c \<in> set (assembleChunks ss maxChunkSize ov)"
  shows "length c \<le> length (joinSp ss)"
proof -
  obtain chunks cur sz where f: "foldl (chunkStep maxChunkSize ov) ([], [], 0) ss = (chunks, cur, sz)"
    by (cases "foldl (chunkStep maxChunkSize ov) ([], [], 0) ss") auto
  note b = chunk_fold_bound[OF f]
  have "assembleChunks ss maxChunkSize ov = (if cur \<noteq> [] then chunks @ [joinSp cur] else chunks)"
    by (simp add: assembleChunks_def f)
  with assms have "c \<in> set chunks \<or> c = joinSp cur" by (auto split: if_splits)
  then show ?thesis using b by blast
qed

text \<open>
  C10. Every returned chunk is longer than 20 code units; if no assembled chunk is longer
  than 20, before or after trimming, nothing is returned; and a text of at most 20 code
  units gives no chunk, because no assembled chunk is longer than the text.
\<close>

theorem minimal_length_floor:
  "(\<forall>f\<in>set (splitIntoSemanticChunks t maxChunkSize ov). 20 < length f)
   \<and> ((\<forall>c\<in>set (assembleChunks (sentenceUnits (normalizeText t)) maxChunkSize ov).
          length c \<le> 20)
        \<longrightarrow> splitIntoSemanticChunks t maxChunkSize ov = [])
   \<and> ((\<forall>c\<in>set (assembleChunks (sentenceUnits (normalizeText t)) maxChunkSize ov).
          length (trim c) \<le> 20)
        \<longrightarrow> splitIntoSemanticChunks t maxChunkSize ov = [])
   \<and> (length t \<le> 20 \<longrightarrow> splitIntoSemanticChunks t maxChunkSize ov = [])"
proof -
  let ?asm = "assembleChunks (sentenceUnits (normalizeText t)) maxChunkSize ov"
  have out: "splitIntoSemanticChunks t maxChunkSize ov =
      (if normalizeText t = [] then [] else filter (\<lambda>chunk. 20 < length chunk) (map trim ?asm))"
    by (simp add: splitIntoSemanticChunks_def Let_def)
  have 1: "\<forall>f\<in>set (splitIntoSemanticChunks t maxChunkSize ov). 20 < length f"
    unfolding out by simp
  have 2: "splitIntoSemanticChunks t maxChunkSize ov = []"
    if "\<forall>c\<in>set ?asm. length (trim c) \<le> 20"
    unfolding out using that by (auto simp: filter_empty_conv)
  have 3: "splitIntoSemanticChunks t maxChunkSize ov = []" if le: "length t \<le> 20"
  proof (rule 2, rule ballI)
    fix c assume "c \<in> set ?asm"
    then have "length c \<le> length (joinSp (sentenceUnits (normalizeText t)))"
      by (rule assembleChunks_bound)
    also have "\<dots> \<le> length (normalizeText t)" by (rule sentenceUnits_bound)
    also have "\<dots> \<le> length t" by (rule length_normalizeText_le)
    finally have "length c \<le> 20" using le by linarith
    then show "length (trim c) \<le> 20" using length_trim_le[of c] by linarith
  qed
  have 4: "splitIntoSemanticChunks t maxChunkSize ov = []"
    if a: "\<forall>c\<in>set ?asm. length c \<le> 20"
  proof (rule 2, rule ballI)
    fix c assume "c \<in> set ?asm"
    with a have "length c \<le> 20" by blast
    then show "length (trim c) \<le> 20" using length_trim_le[of c] by linarith
  qed
  from 1 2 3 4 show ?thesis by blast
qed

theorem minimal_length_floor_witness:
  "length (str ''Hello world. Bye.'') \<le> 20
   \<and> splitIntoSemanticChunks (str ''Hello world. Bye.'') 100 1 = []
   \<and> assembleChunks (sentenceUnits (normalizeText (str ''Hello world. Bye.''))) 100 1
        = [str ''Hello world. Bye.'']"
proof -
  have h: "length (str ''Hello world. Bye.'') \<le> 20" by (simp add: str_def)
  have a: "assembleChunks (sentenceUnits (normalizeText (str ''Hello world. Bye.''))) 100 1
        = [str ''Hello world. Bye.'']"
    by (simp add: seg_eval)
  have "splitIntoSemanticChunks (str ''Hello world. Bye.'') 100 1 = []"
    by (rule mp [OF conjunct2 [OF conjunct2 [OF conjunct2 [OF minimal_length_floor]]] h])
  with h a show ?thesis by blast
qed

subsection \<open>The size of a chunk\<close>

lemma splitFrom_nospace:
  assumes "\<forall>x\<in>set w. \<not> isSpace x" and "p \<in> set (splitFrom w s)"
  shows "\<forall>x\<in>set p. \<not> isSpace x"
  using assms
proof (induction w s rule: splitFrom.induct)
  case (1 w)
  then show ?case by simp
next
  case (2 w c cs)
  show ?case
  proof (cases "isSpace c")
    case True
    with 2(4) have "p = w \<or> p \<in> set (splitFrom [] (dropWhile isSpace cs))" by simp
    then show ?thesis
    proof
      assume "p = w"
      then show ?thesis using 2(3) by simp
    next
      assume a: "p \<in> set (splitFrom [] (dropWhile isSpace cs))"
      have "\<forall>x\<in>set ([] :: jsstring). \<not> isSpace x" by simp
      from 2(1)[OF True this a] show ?thesis .
    qed
  next
    case False
    with 2(4) have a: "p \<in> set (splitFrom (w @ [c]) cs)" by simp
    have b: "\<forall>x\<in>set (w @ [c]). \<not> isSpace x" using 2(3) False by simp
    from 2(2)[OF False b a] show ?thesis .
  qed
qed

lemma wordSized_trim: "wordSized M p \<Longrightarrow> wordSized M (trim p)"
proof -
  assume "wordSized M p"
  then consider "length p \<le> M" | "\<forall>x\<in>set p. \<not> isSpace x"
    unfolding wordSized_def by blast
  then show ?thesis
  proof cases
    case 1
    then have "length (trim p) \<le> M" using length_trim_le[of p] by linarith
    then show ?thesis unfolding wordSized_def ..
  next
    case 2
    then have "\<forall>x\<in>set (trim p). \<not> isSpace x" using set_trim_subset[of p] by blast
    then show ?thesis unfolding wordSized_def ..
  qed
qed

lemma wordStep_size:
  assumes "foldl (wordStep M) ([], []) ws = (subs, cur)"
    and "\<forall>w\<in>set ws. \<forall>x\<in>set w. \<not> isSpace x"
  shows "(\<forall>p\<in>set subs. wordSized M p) \<and> wordSized M cur"
  using assms
proof (induction ws arbitrary: subs cur rule: rev_induct)
  case Nil
  then show ?case by (simp add: wordSized_def)
next
  case (snoc w ws)
  obtain subs0 cur0 where f: "foldl (wordStep M) ([], []) ws = (subs0, cur0)"
    by (cases "foldl (wordStep M) ([], []) ws") auto
  have wsn: "\<forall>w\<in>set ws. \<forall>x\<in>set w. \<not> isSpace x" and wn: "\<forall>x\<in>set w. \<not> isSpace x"
    using snoc.prems(2) by simp_all
  note ih = snoc.IH[OF f wsn]
  from ih have subs0: "\<forall>p\<in>set subs0. wordSized M p" and cur0: "wordSized M cur0"
    by blast+
  have t: "wordSized M (trim cur0)" using cur0 by (rule wordSized_trim)
  have w: "wordSized M w" using wn unfolding wordSized_def ..
  have step: "wordStep M (subs0, cur0) w = (subs, cur)"
    using snoc.prems(1) by (simp add: f)
  show ?case
  proof (cases "cur0 = []")
    case True
    from step[unfolded True wordStep_first]
    have "subs = subs0" and "cur = w" by simp_all
    then show ?thesis using subs0 w by simp
  next
    case ne0: False
    show ?thesis
    proof (cases "M < length (cur0 @ [32] @ w)")
      case True
      from step[unfolded wordStep_push[OF ne0 True]]
      have "subs = subs0 @ [trim cur0]" and "cur = w" by simp_all
      then show ?thesis using subs0 t w by simp
    next
      case False
      from step[unfolded wordStep_grow[OF ne0 False]]
      have e: "subs = subs0" "cur = cur0 @ [32] @ w" by simp_all
      have "length cur \<le> M" using False unfolding e by simp
      then have "wordSized M cur" unfolding wordSized_def ..
      then show ?thesis using e(1) subs0 by simp
    qed
  qed
qed

lemma splitLong_size:
  assumes "p \<in> set (splitLongSentenceByWords s M)"
  shows "wordSized M p"
proof -
  obtain subs cur where f: "foldl (wordStep M) ([], []) (splitWhitespace s) = (subs, cur)"
    by (cases "foldl (wordStep M) ([], []) (splitWhitespace s)") auto
  have words: "\<forall>w\<in>set (splitWhitespace s). \<forall>x\<in>set w. \<not> isSpace x"
    using splitFrom_nospace[of "[]" _ s] by (simp add: splitWhitespace_def)
  from wordStep_size[OF f words]
  have subs: "\<forall>p\<in>set subs. wordSized M p" and cur: "wordSized M cur" by blast+
  have "splitLongSentenceByWords s M = (if length (trim cur) > 0 then subs @ [trim cur] else subs)"
    by (simp add: splitLongSentenceByWords_def f)
  with assms have "p \<in> set subs \<or> p = trim cur"
    by (auto split: if_splits)
  then show ?thesis
  proof
    assume "p \<in> set subs"
    then show ?thesis using subs by blast
  next
    assume p: "p = trim cur"
    show ?thesis unfolding p using cur by (rule wordSized_trim)
  qed
qed

lemma sublist_snoc: "sublist us pre \<Longrightarrow> sublist us (pre @ [s])"
proof -
  assume "sublist us pre"
  then obtain ps ss where "pre = ps @ us @ ss" unfolding sublist_def by blast
  then have "pre @ [s] = ps @ us @ (ss @ [s])" by simp
  then show ?thesis unfolding sublist_def by blast
qed

lemma sizedChunk_snoc:
  assumes "sizedChunk M pre c"
  shows "sizedChunk M (pre @ [s]) c"
proof (cases "wordSized M c")
  case True
  then show ?thesis unfolding sizedChunk_def ..
next
  case False
  with assms obtain us where us: "2 \<le> length us" "sublist us pre"
    "\<forall>u\<in>set us. length u \<le> M" "c = joinSp us"
    unfolding sizedChunk_def by blast
  from us(2) have "sublist us (pre @ [s])" by (rule sublist_snoc)
  with us(1,3,4) show ?thesis unfolding sizedChunk_def by blast
qed

lemma sizedChunk_join:
  assumes "sublist cur ss" and "\<forall>u\<in>set cur. length u \<le> M" and "cur \<noteq> []"
  shows "sizedChunk M ss (joinSp cur)"
proof (cases "length cur = 1")
  case True
  then obtain u where u: "cur = [u]" by (cases cur) auto
  then have "length (joinSp cur) \<le> M" using assms(2) by simp
  then show ?thesis by (simp add: sizedChunk_def wordSized_def)
next
  case False
  moreover have "length cur \<noteq> 0" using assms(3) by simp
  ultimately have "2 \<le> length cur" by linarith
  then show ?thesis unfolding sizedChunk_def using assms(1,2) by blast
qed

lemma chunkStep_size:
  assumes "(\<forall>c\<in>set chunks. sizedChunk M pre c) \<and> suffix cur pre \<and> (\<forall>u\<in>set cur. length u \<le> M)"
    and "chunkStep M ov (chunks, cur, sz) s = (chunks', cur', sz')"
  shows "(\<forall>c\<in>set chunks'. sizedChunk M (pre @ [s]) c) \<and> suffix cur' (pre @ [s])
         \<and> (\<forall>u\<in>set cur'. length u \<le> M)"
proof -
  from assms(1) have old: "\<And>c. c \<in> set chunks \<Longrightarrow> sizedChunk M pre c"
    and suf: "suffix cur pre" and small: "\<forall>u\<in>set cur. length u \<le> M"
    by blast+
  have old': "\<forall>c\<in>set chunks. sizedChunk M (pre @ [s]) c"
    using old by (blast intro: sizedChunk_snoc)
  have "sublist cur (pre @ [s])"
    using suf by (intro sublist_snoc suffix_imp_sublist)
  then have pushed: "cur \<noteq> [] \<Longrightarrow> sizedChunk M (pre @ [s]) (joinSp cur)"
    using small by (rule sizedChunk_join)
  have pieces: "\<forall>p\<in>set (splitLongSentenceByWords s M). sizedChunk M (pre @ [s]) p"
    using splitLong_size unfolding sizedChunk_def by blast
  show ?thesis
  proof (cases rule: chunkStep_shape[of M s ov chunks cur sz])
    case long
    from assms(2)[unfolded long(2)]
    have e: "chunks' = (if cur \<noteq> [] then chunks @ [joinSp cur] else chunks)
               @ splitLongSentenceByWords s M" "cur' = []"
      by simp_all
    show ?thesis unfolding e using old' pushed pieces by auto
  next
    case flush
    from assms(2)[unfolded flush(4)]
    have e: "chunks' = chunks @ [joinSp cur]"
      "cur' = (if 0 < ov \<and> ov < length cur then lastN ov cur else []) @ [s]"
      by simp_all
    let ?seed = "if 0 < ov \<and> ov < length cur then lastN ov cur else []"
    have sc: "suffix ?seed cur" by (simp add: lastN_def suffix_drop)
    then have 1: "suffix ?seed pre" using suf by (rule suffix_order.trans)
    have 2: "\<forall>u\<in>set ?seed. length u \<le> M"
      using small set_mono_suffix[OF sc] by blast
    have 3: "suffix (?seed @ [s]) (pre @ [s])" using 1 by simp
    have 4: "\<forall>u\<in>set (?seed @ [s]). length u \<le> M" using 2 flush(1) by simp
    show ?thesis unfolding e using old' pushed[OF flush(2)] 3 4 by simp
  next
    case add
    from assms(2)[unfolded add(3)]
    have e: "chunks' = chunks" "cur' = cur @ [s]" by simp_all
    have 3: "suffix (cur @ [s]) (pre @ [s])" using suf by simp
    have 4: "\<forall>u\<in>set (cur @ [s]). length u \<le> M" using small add(1) by simp
    show ?thesis unfolding e using old' 3 4 by simp
  qed
qed

lemma assembleChunks_size:
  assumes "c \<in> set (assembleChunks ss M ov)"
  shows "sizedChunk M ss c"
proof -
  let ?I = "\<lambda>pre st. case st of (chunks, cur, sz) \<Rightarrow>
     (\<forall>c\<in>set chunks. sizedChunk M pre c) \<and> suffix cur pre \<and> (\<forall>u\<in>set cur. length u \<le> M)"
  have "?I ss (foldl (chunkStep M ov) ([], [], 0) ss)"
  proof (rule chunk_fold_invariant)
    show "?I [] ([], [], 0)" by simp
  next
    fix pre chunks cur :: "jsstring list" and sz :: nat and s :: jsstring
    assume i: "?I pre (chunks, cur, sz)"
    obtain chunks' cur' sz' where st: "chunkStep M ov (chunks, cur, sz) s = (chunks', cur', sz')"
      by (cases "chunkStep M ov (chunks, cur, sz) s") auto
    from i have "(\<forall>c\<in>set chunks. sizedChunk M pre c) \<and> suffix cur pre
           \<and> (\<forall>u\<in>set cur. length u \<le> M)"
      by simp
    from chunkStep_size[OF this st]
    show "?I (pre @ [s]) (chunkStep M ov (chunks, cur, sz) s)"
      unfolding st by simp
  qed
  moreover obtain chunks cur sz where f: "foldl (chunkStep M ov) ([], [], 0) ss = (chunks, cur, sz)"
    by (cases "foldl (chunkStep M ov) ([], [], 0) ss") auto
  ultimately have inv: "\<forall>c\<in>set chunks. sizedChunk M ss c" "suffix cur ss"
    "\<forall>u\<in>set cur. length u \<le> M"
    by simp_all
  have "assembleChunks ss M ov = (if cur \<noteq> [] then chunks @ [joinSp cur] else chunks)"
    by (simp add: assembleChunks_def f)
  with assms have "c \<in> set chunks \<or> (cur \<noteq> [] \<and> c = joinSp cur)" by (auto split: if_splits)
  then show ?thesis
  proof
    assume "c \<in> set chunks"
    then show ?thesis using inv(1) by blast
  next
    assume c: "cur \<noteq> [] \<and> c = joinSp cur"
    have "sizedChunk M ss (joinSp cur)"
      using suffix_imp_sublist[OF inv(2)] inv(3) c by (intro sizedChunk_join) auto
    then show ?thesis using c by simp
  qed
qed


text \<open>
  C2 as the code has it. A returned chunk is within \<open>maxChunkSize\<close>, unless it is a
  single word without white space, which the split by words cannot divide, or the join
  of two or more consecutive sentences, each within \<open>maxChunkSize\<close>.
\<close>

theorem fragment_size_bound:
  assumes "f \<in> set (splitIntoSemanticChunks t maxChunkSize ov)"
  shows "length f \<le> maxChunkSize \<or> (\<forall>x\<in>set f. \<not> isSpace x) \<or>
         (\<exists>us. 2 \<le> length us \<and> sublist us (sentenceUnits (normalizeText t)) \<and>
               (\<forall>u\<in>set us. length u \<le> maxChunkSize) \<and> f = trim (joinSp us))"
proof -
  let ?ss = "sentenceUnits (normalizeText t)"
  from assms obtain c where c: "c \<in> set (assembleChunks ?ss maxChunkSize ov)" and f: "f = trim c"
    by (auto simp: splitIntoSemanticChunks_def Let_def split: if_splits)
  from assembleChunks_size[OF c] show ?thesis
    unfolding sizedChunk_def
  proof
    assume "wordSized maxChunkSize c"
    then have "wordSized maxChunkSize f" unfolding f by (rule wordSized_trim)
    then show ?thesis unfolding wordSized_def by blast
  next
    assume "\<exists>us. 2 \<le> length us \<and> sublist us ?ss \<and> (\<forall>u\<in>set us. length u \<le> maxChunkSize)
              \<and> c = joinSp us"
    then show ?thesis unfolding f by blast
  qed
qed

lemma cats_out21:
  "splitIntoSemanticChunks (str ''Cats are mammals. Dogs are mammals too.'') 21 0
     = [str ''Dogs are mammals too.'']"
  by (simp add: seg_eval)

theorem fragment_size_bound_witness:
  "str ''Dogs are mammals too.''
     \<in> set (splitIntoSemanticChunks (str ''Cats are mammals. Dogs are mammals too.'') 21 0)
   \<and> length (str ''Dogs are mammals too.'') \<le> 21
   \<and> (length (str ''Dogs are mammals too.'') \<le> 21
        \<or> (\<forall>x\<in>set (str ''Dogs are mammals too.''). \<not> isSpace x)
        \<or> (\<exists>us. 2 \<le> length us
              \<and> sublist us (sentenceUnits (normalizeText (str ''Cats are mammals. Dogs are mammals too.'')))
              \<and> (\<forall>u\<in>set us. length u \<le> 21) \<and> str ''Dogs are mammals too.'' = trim (joinSp us)))"
proof -
  have h: "str ''Dogs are mammals too.''
     \<in> set (splitIntoSemanticChunks (str ''Cats are mammals. Dogs are mammals too.'') 21 0)"
    by (simp add: cats_out21)
  have l: "length (str ''Dogs are mammals too.'') \<le> 21" by (simp add: str_def)
  from fragment_size_bound[OF h] h l show ?thesis by (intro conjI)
qed

text \<open>
  A sentence of one word of 26 code units with \<open>maxChunkSize = 21\<close>: the split by words
  returns the word whole, and it is the chunk returned.
\<close>

theorem fragment_size_counterexample:
  "splitIntoSemanticChunks (str ''aaaaaaaaaaaaaaaaaaaaaaaaa.'') 21 0 = [str ''aaaaaaaaaaaaaaaaaaaaaaaaa.'']
   \<and> 21 < length (str ''aaaaaaaaaaaaaaaaaaaaaaaaa.'')
   \<and> splitLongSentenceByWords (str ''aaaaaaaaaaaaaaaaaaaaaaaaa.'') 21 = [str ''aaaaaaaaaaaaaaaaaaaaaaaaa.'']"
  by (simp add: seg_eval)

subsection \<open>Overlap between consecutive chunks\<close>
























end
